theory Spec2Isabelle
  imports Complex_Main "HOL-Library.Sublist" "HOL-Library.Multiset"
    "HOL-Library.List_Lexorder" "HOL-Library.Char_ord"
begin

section \<open>Template records\<close>

text \<open>
  The browsing application (\<^verbatim>\<open>TemplateGrid\<close>) and the \<^verbatim>\<open>useFuseSearch\<close> hook
  declare the same interface:
  \<^verbatim>\<open>
  interface Template {
    id: string; name: string; description: string; version: string;
    logo?: string;
    links: { github?: string; website?: string; docs?: string; };
    tags: string[];
  }
  \<close>
  Optional fields are \<open>option\<close>s. Strings are lists of \<open>char\<close>. The field \<^verbatim>\<open>id\<close> is
  called \<open>id'\<close> here, because \<open>id\<close> is the identity function of HOL. A missing raw
  identifier is the empty string: \<^verbatim>\<open>!uniqueKey\<close> is true exactly for it among strings.
\<close>

record links =
  github :: "string option"
  website :: "string option"
  docs :: "string option"

record template =
  id' :: string
  name :: string
  description :: string
  version :: string
  logo :: "string option"
  links :: links
  tags :: "string list"

section \<open>The catalog normalizer: \<^verbatim>\<open>uniqueTemplates\<close>\<close>

subsection \<open>The JavaScript \<^verbatim>\<open>Map\<close>, in insertion order\<close>

text \<open>
  A \<^verbatim>\<open>Map\<close> iterates in insertion order, and \<^verbatim>\<open>set\<close> on a key that is present
  replaces the value where the key stands; on a new key it appends the entry. The model
  is an association list with exactly this update.
\<close>

type_synonym ('k, 'v) js_map = "('k \<times> 'v) list"

fun map_has :: "('k, 'v) js_map \<Rightarrow> 'k \<Rightarrow> bool" where
  "map_has [] k = False"
| "map_has ((k', v') # m) k = (k' = k \<or> map_has m k)"

fun map_set :: "'k \<Rightarrow> 'v \<Rightarrow> ('k, 'v) js_map \<Rightarrow> ('k, 'v) js_map" where
  "map_set k v [] = [(k, v)]"
| "map_set k v ((k', v') # m) =
     (if k' = k then (k, v) # m else (k', v') # map_set k v m)"

definition map_values :: "('k, 'v) js_map \<Rightarrow> 'v list" where
  "map_values m = map snd m"

subsection \<open>Decimal rendering of an index\<close>

text \<open>
  The template literal \<^verbatim>\<open>`${template.name}-${index}`\<close> renders the index in decimal.
\<close>

definition digit_char :: "nat \<Rightarrow> char" where
  "digit_char d = ''0123456789'' ! d"

fun string_of_nat :: "nat \<Rightarrow> string" where
  "string_of_nat n =
     (if n < 10 then [digit_char n]
      else string_of_nat (n div 10) @ [digit_char (n mod 10)])"

declare string_of_nat.simps [simp del]

text \<open>
  Reading a decimal rendering back: the value of a digit and of a string of digits. It
  serves to show that different numbers render differently.
\<close>

definition digit_value :: "char \<Rightarrow> nat" where
  "digit_value c = of_char c - 48"

definition decimal_value :: "string \<Rightarrow> nat" where
  "decimal_value s = foldl (\<lambda>a c. 10 * a + digit_value c) 0 s"

subsection \<open>The loop body and the function\<close>

text \<open>
  \<^verbatim>\<open>
  const uniqueTemplates = useMemo(() => {
    if (!templates || templates.length === 0) return [];
    const templateMap = new Map<string, Template>();
    const seenNames = new Set<string>();
    templates.forEach((template, index) => {
      let uniqueKey = template.id;
      if (templateMap.has(uniqueKey) || !uniqueKey) {
        uniqueKey = template.name;
        if (seenNames.has(uniqueKey)) {
          uniqueKey = `${template.name}-${index}`;
        }
      }
      seenNames.add(template.name);
      templateMap.set(uniqueKey, { ...template, id: uniqueKey });
    });
    return Array.from(templateMap.values());
  }, [templates]);
  \<close>
  The state of the loop is the pair of \<^verbatim>\<open>templateMap\<close> and \<^verbatim>\<open>seenNames\<close>.
\<close>

type_synonym norm_state = "(string, template) js_map \<times> string set"

definition uniqueKey :: "norm_state \<Rightarrow> nat \<Rightarrow> template \<Rightarrow> string" where
  "uniqueKey st index t =
     (if map_has (fst st) (id' t) \<or> id' t = []
      then (if name t \<in> snd st then name t @ ''-'' @ string_of_nat index else name t)
      else id' t)"

definition forEach_body :: "norm_state \<Rightarrow> nat \<times> template \<Rightarrow> norm_state" where
  "forEach_body st it =
     (let k = uniqueKey st (fst it) (snd it)
      in (map_set k ((snd it)\<lparr>id' := k\<rparr>) (fst st), insert (name (snd it)) (snd st)))"

definition normalize_from :: "norm_state \<Rightarrow> nat \<Rightarrow> template list \<Rightarrow> norm_state" where
  "normalize_from st i ts = foldl forEach_body st (zip [i ..< i + length ts] ts)"

definition uniqueTemplates :: "template list \<Rightarrow> template list" where
  "uniqueTemplates templates =
     (if templates = [] then []
      else map_values (fst (normalize_from ([], {}) 0 templates)))"

text \<open>
  What a record stored in \<^verbatim>\<open>templateMap\<close> looks like, in terms of the input: the
  entry \<open>(k, v)\<close> carries its key as identifier, and \<open>v\<close> is the input record at some
  position \<open>i\<close> with only the identifier replaced: by the raw identifier, by the name, or
  by the name followed by \<^verbatim>\<open>-\<close> and \<open>i\<close>.
\<close>

definition stored_from :: "template list \<Rightarrow> string \<times> template \<Rightarrow> bool" where
  "stored_from ts kv \<longleftrightarrow>
     id' (snd kv) = fst kv \<and>
     (\<exists>i < length ts. snd kv = (ts ! i)\<lparr>id' := fst kv\<rparr> \<and>
        (fst kv = id' (ts ! i) \<or> fst kv = name (ts ! i) \<or>
         fst kv = name (ts ! i) @ ''-'' @ string_of_nat i))"

section \<open>The search index\<close>

subsection \<open>The options handed to Fuse.js\<close>

text \<open>
  Fuse.js is a library: its matching is not part of this repository and enters every
  function below as a parameter \<open>Fuse\<close>, which takes the options, the indexed records
  and a query, and returns the result objects (\<^verbatim>\<open>item\<close>, \<^verbatim>\<open>refIndex\<close>,
  \<^verbatim>\<open>score\<close>). The options are data of the repository. A weight is a decimal literal
  of the source, read as the real number it denotes; options that one of the two call
  sites does not set are \<open>None\<close>.
\<close>

record fuse_key =
  key_name :: string
  weight :: real

record fuse_options =
  keys :: "fuse_key list"
  threshold :: real
  ignoreLocation :: bool
  includeScore :: bool
  minMatchCharLength :: nat
  isCaseSensitive :: "bool option"
  ignoreDiacritics :: "bool option"
  includeMatches :: "bool option"
  shouldSort :: "bool option"
  findAllMatches :: "bool option"
  location :: "nat option"
  distance :: "nat option"
  useExtendedSearch :: "bool option"
  ignoreFieldNorm :: "bool option"
  fieldNormWeight :: "real option"

record fuse_result =
  item :: template
  refIndex :: nat
  score :: real

type_synonym fuse_lib = "fuse_options \<Rightarrow> template list \<Rightarrow> string \<Rightarrow> fuse_result list"

text \<open>
  \<^verbatim>\<open>TemplateGrid\<close>:
  \<^verbatim>\<open>
  new Fuse(uniqueTemplates, {
    keys: [ { name: "name", weight: 0.7 }, { name: "description", weight: 0.2 },
            { name: "tags", weight: 0.1 } ],
    threshold: 0.3, ignoreLocation: true, includeScore: true, minMatchCharLength: 1 })
  \<close>
\<close>

definition grid_options :: fuse_options where
  "grid_options =
     \<lparr>keys = [\<lparr>key_name = ''name'', weight = 0.7\<rparr>,
              \<lparr>key_name = ''description'', weight = 0.2\<rparr>,
              \<lparr>key_name = ''tags'', weight = 0.1\<rparr>],
      threshold = 0.3, ignoreLocation = True, includeScore = True, minMatchCharLength = 1,
      isCaseSensitive = None, ignoreDiacritics = None, includeMatches = None,
      shouldSort = None, findAllMatches = None, location = None, distance = None,
      useExtendedSearch = None, ignoreFieldNorm = None, fieldNormWeight = None\<rparr>"

text \<open>
  \<^verbatim>\<open>useFuseSearch\<close>:
  \<^verbatim>\<open>
  keys: [ { name: "name", weight: 2 },          // Name is most important
          { name: "description", weight: 1 },   // Description has normal weight
          { name: "tags", weight: 1.5 },        // Tags are quite important
          { name: "id", weight: 0.5 } ],        // ID has lower weight
  location: 0, threshold: 0.4, distance: 100, ignoreLocation: true, ...
  \<close>
\<close>

definition hook_options :: fuse_options where
  "hook_options =
     \<lparr>keys = [\<lparr>key_name = ''name'', weight = 2\<rparr>,
              \<lparr>key_name = ''description'', weight = 1\<rparr>,
              \<lparr>key_name = ''tags'', weight = 1.5\<rparr>,
              \<lparr>key_name = ''id'', weight = 0.5\<rparr>],
      threshold = 0.4, ignoreLocation = True, includeScore = True, minMatchCharLength = 1,
      isCaseSensitive = Some False, ignoreDiacritics = Some True, includeMatches = Some True,
      shouldSort = Some True, findAllMatches = Some False, location = Some 0,
      distance = Some 100, useExtendedSearch = Some False, ignoreFieldNorm = Some False,
      fieldNormWeight = Some 1\<rparr>"

text \<open>The weight configured for a field, and "field \<open>a\<close> outweighs field \<open>b\<close>".\<close>

fun key_weight :: "fuse_key list \<Rightarrow> string \<Rightarrow> real option" where
  "key_weight [] n = None"
| "key_weight (k # ks) n = (if key_name k = n then Some (weight k) else key_weight ks n)"

definition outweighs :: "fuse_options \<Rightarrow> string \<Rightarrow> string \<Rightarrow> bool" where
  "outweighs opts a b =
     (case key_weight (keys opts) a of
        None \<Rightarrow> False
      | Some wa \<Rightarrow> (case key_weight (keys opts) b of None \<Rightarrow> False | Some wb \<Rightarrow> wb < wa))"

subsection \<open>\<^verbatim>\<open>String.prototype.trim\<close>\<close>

text \<open>
  \<^verbatim>\<open>trim\<close> strips white space and line terminators from both ends. Of the
  characters it strips, these have a code below 256: tab, line feed, vertical tab, form
  feed, carriage return, space and no-break space.
\<close>

definition isWhiteSpace :: "char \<Rightarrow> bool" where
  "isWhiteSpace c \<longleftrightarrow> (of_char c :: nat) \<in> {9, 10, 11, 12, 13, 32, 160}"

definition trim :: "string \<Rightarrow> string" where
  "trim s = rev (dropWhile isWhiteSpace (rev (dropWhile isWhiteSpace s)))"

section \<open>The filter pipeline: \<^verbatim>\<open>filteredTemplates\<close>\<close>

text \<open>
  \<^verbatim>\<open>
  const fuse = useMemo(() => {
    if (!uniqueTemplates || uniqueTemplates.length === 0) return null;
    return new Fuse(uniqueTemplates, { ... });
  }, [uniqueTemplates]);

  const filteredTemplates = useMemo(() => {
    if (!uniqueTemplates || uniqueTemplates.length === 0) return [];
    let filtered = uniqueTemplates;
    if (debouncedSearchQuery.trim() && fuse) {
      const searchResults = fuse.search(debouncedSearchQuery);
      filtered = searchResults.map((result) => result.item);
    }
    if (selectedTags.length > 0) {
      filtered = filtered.filter((template) =>
        selectedTags.every((tag) => template.tags.includes(tag)));
    }
    return filtered;
  }, [uniqueTemplates, debouncedSearchQuery, selectedTags, fuse]);
  \<close>
  The index is \<open>None\<close> for \<^verbatim>\<open>null\<close>, and \<open>catalog\<close> stands for the value of
  \<^verbatim>\<open>uniqueTemplates\<close>. The two assignments to \<^verbatim>\<open>filtered\<close> are the
  two steps \<open>text_step\<close> and \<open>tag_step\<close>.
\<close>

definition fuse :: "fuse_lib \<Rightarrow> template list \<Rightarrow> (string \<Rightarrow> fuse_result list) option" where
  "fuse Fuse catalog =
     (if catalog = [] then None else Some (Fuse grid_options catalog))"

definition text_step :: "fuse_lib \<Rightarrow> template list \<Rightarrow> string \<Rightarrow> template list" where
  "text_step Fuse catalog debouncedSearchQuery =
     (case fuse Fuse catalog of
        Some fuse_search \<Rightarrow>
          if trim debouncedSearchQuery \<noteq> []
          then map item (fuse_search debouncedSearchQuery)
          else catalog
      | None \<Rightarrow> catalog)"

definition has_all_tags :: "string list \<Rightarrow> template \<Rightarrow> bool" where
  "has_all_tags selectedTags t = list_all (\<lambda>tag. tag \<in> set (tags t)) selectedTags"

definition tag_step :: "string list \<Rightarrow> template list \<Rightarrow> template list" where
  "tag_step selectedTags filtered =
     (if length selectedTags > 0 then filter (has_all_tags selectedTags) filtered
      else filtered)"

definition filteredTemplates ::
  "fuse_lib \<Rightarrow> template list \<Rightarrow> string \<Rightarrow> string list \<Rightarrow> template list" where
  "filteredTemplates Fuse catalog debouncedSearchQuery selectedTags =
     (if catalog = [] then []
      else tag_step selectedTags (text_step Fuse catalog debouncedSearchQuery))"

section \<open>The hook \<^verbatim>\<open>useFuseSearch\<close>\<close>

text \<open>
  \<^verbatim>\<open>
  const fuse = useMemo(() => {
    if (!templates || templates.length === 0) return null;
    return new Fuse(templates, options);
  }, [templates]);
  const search = (query) => {
    if (!fuse || !query.trim()) { return templates; }
    const results = fuse.search(query);
    return results.map((result) => result.item);
  };
  const searchWithDetails = (query) => {
    if (!fuse || !query.trim()) { return []; }
    return fuse.search(query);
  };
  \<close>
\<close>

definition hook_fuse :: "fuse_lib \<Rightarrow> template list \<Rightarrow> (string \<Rightarrow> fuse_result list) option" where
  "hook_fuse Fuse templates =
     (if templates = [] then None else Some (Fuse hook_options templates))"

definition search :: "fuse_lib \<Rightarrow> template list \<Rightarrow> string \<Rightarrow> template list" where
  "search Fuse templates query =
     (case hook_fuse Fuse templates of
        None \<Rightarrow> templates
      | Some fuse_search \<Rightarrow>
          if trim query = [] then templates else map item (fuse_search query))"

definition searchWithDetails :: "fuse_lib \<Rightarrow> template list \<Rightarrow> string \<Rightarrow> fuse_result list" where
  "searchWithDetails Fuse templates query =
     (case hook_fuse Fuse templates of
        None \<Rightarrow> []
      | Some fuse_search \<Rightarrow> if trim query = [] then [] else fuse_search query)"

section \<open>The query debouncer: \<^verbatim>\<open>useDebounce\<close>\<close>

text \<open>
  \<^verbatim>\<open>
  const useDebounce = (value: string, delay: number) => {
    const [debouncedValue, setDebouncedValue] = useState(value);
    useEffect(() => {
      const handler = setTimeout(() => { setDebouncedValue(value); }, delay);
      return () => { clearTimeout(handler); };
    }, [value, delay]);
    return debouncedValue;
  };
  const debouncedSearchQuery = useDebounce(searchQuery, 300);
  \<close>
  Time is a logical clock counted in the unit of the delay, and every event carries the
  time at which it happens. The state holds what the hook and the timer queue of the
  runtime hold between events: the dependencies of the last effect (\<open>value'\<close>,
  \<open>delay\<close>), the state cell \<open>debouncedValue\<close>, the handle that the pending cleanup
  closes over (\<open>handler\<close>), the pending timers, each with the time it is due and the
  value its callback closes over, and the next free handle. The field \<open>emitted\<close> is not
  program state: it logs every call of \<^verbatim>\<open>setDebouncedValue\<close>, with its time, so that
  emissions can be counted. A timer runs at the time it is due.
\<close>

record timer =
  timer_id :: nat
  due :: nat
  callback_value :: string

record debounce =
  value' :: string
  delay :: nat
  debouncedValue :: string
  handler :: "nat option"
  timers :: "timer list"
  next_id :: nat
  emitted :: "(nat \<times> string) list"

text \<open>The effect body: \<^verbatim>\<open>const handler = setTimeout(() => setDebouncedValue(value), delay)\<close>.\<close>

definition effect :: "nat \<Rightarrow> debounce \<Rightarrow> debounce" where
  "effect now s =
     s\<lparr>handler := Some (next_id s),
       timers := timers s @
         [\<lparr>timer_id = next_id s, due = now + delay s, callback_value = value' s\<rparr>],
       next_id := Suc (next_id s)\<rparr>"

text \<open>The cleanup: \<^verbatim>\<open>clearTimeout(handler)\<close>; clearing a timer that has run does nothing.\<close>

definition cleanup :: "debounce \<Rightarrow> debounce" where
  "cleanup s =
     (case handler s of
        None \<Rightarrow> s
      | Some h \<Rightarrow> s\<lparr>timers := filter (\<lambda>tm. timer_id tm \<noteq> h) (timers s)\<rparr>)"

text \<open>A timer runs: its callback calls \<^verbatim>\<open>setDebouncedValue\<close> with the captured value.\<close>

definition fire :: "debounce \<Rightarrow> timer \<Rightarrow> debounce" where
  "fire s tm =
     s\<lparr>debouncedValue := callback_value tm,
       timers := filter (\<lambda>x. timer_id x \<noteq> timer_id tm) (timers s),
       emitted := emitted s @ [(due tm, callback_value tm)]\<rparr>"

text \<open>Time passes up to \<open>now\<close>: the timers due by then run, the earliest first.\<close>

definition advance :: "nat \<Rightarrow> debounce \<Rightarrow> debounce" where
  "advance now s =
     foldl fire s (sort_key due (filter (\<lambda>tm. due tm \<le> now) (timers s)))"

text \<open>
  The first render: \<^verbatim>\<open>useState(value)\<close> seeds the cell, and the effect runs once.
\<close>

definition mount :: "nat \<Rightarrow> string \<Rightarrow> nat \<Rightarrow> debounce" where
  "mount now v d =
     effect now \<lparr>value' = v, delay = d, debouncedValue = v, handler = None, timers = [],
                 next_id = 0, emitted = []\<rparr>"

text \<open>
  A later render at time \<open>now\<close> with the arguments \<open>v\<close> and \<open>d\<close>: when a dependency
  has changed, the cleanup of the previous effect runs and then the effect; when none
  has, neither runs.
\<close>

definition render :: "nat \<Rightarrow> string \<Rightarrow> nat \<Rightarrow> debounce \<Rightarrow> debounce" where
  "render now v d s =
     (let s1 = advance now s
      in if v = value' s1 \<and> d = delay s1 then s1
         else effect now ((cleanup s1)\<lparr>value' := v, delay := d\<rparr>))"

text \<open>
  \<^verbatim>\<open>debouncedSearchQuery\<close>: the hook at the delay 300, mounted at time \<open>t0\<close> on the
  query \<open>v0\<close>, then fed the timed query updates \<open>us\<close> in turn.
\<close>

definition updates :: "debounce \<Rightarrow> (nat \<times> string) list \<Rightarrow> debounce" where
  "updates s us = foldl (\<lambda>s u. render (fst u) (snd u) 300 s) s us"

definition debouncedSearchQuery :: "nat \<Rightarrow> string \<Rightarrow> (nat \<times> string) list \<Rightarrow> debounce" where
  "debouncedSearchQuery t0 v0 us = updates (mount t0 v0 300) us"

text \<open>
  A burst: every update changes the query text, and comes less than 300 after the one
  before it (and not before it).
\<close>

fun burst :: "(nat \<times> string) list \<Rightarrow> bool" where
  "burst [] = True"
| "burst [u] = True"
| "burst (u # u' # us) =
     (fst u \<le> fst u' \<and> fst u' < fst u + 300 \<and> snd u' \<noteq> snd u \<and> burst (u' # us))"

text \<open>
  The invariant of the hook: the delay is 300, and every pending timer is the one the
  cleanup holds the handle of.
\<close>

definition owned :: "debounce \<Rightarrow> bool" where
  "owned s \<longleftrightarrow> delay s = 300 \<and> list_all (\<lambda>tm. handler s = Some (timer_id tm)) (timers s)"

text \<open>
  The state right after an update to \<open>v\<close> at time \<open>t\<close>: one timer is pending, due at
  \<open>t + 300\<close>, carrying \<open>v\<close>.
\<close>

definition waiting :: "nat \<Rightarrow> string \<Rightarrow> debounce \<Rightarrow> bool" where
  "waiting t v s \<longleftrightarrow>
     value' s = v \<and> delay s = 300 \<and>
     (case handler s of
        None \<Rightarrow> False
      | Some h \<Rightarrow> timers s = [\<lparr>timer_id = h, due = t + 300, callback_value = v\<rparr>])"

section \<open>The view state sink\<close>

text \<open>
  \<^verbatim>\<open>
  useEffect(() => {
    setFilteredTemplates(filteredTemplates);
    setTemplatesCount(filteredTemplates.length);
    console.log("Filtered templates updated:", filteredTemplates.length);
  }, [filteredTemplates, setFilteredTemplates, setTemplatesCount]);
  \<close>
\<close>

record store =
  items :: "template list"
  count :: nat

text \<open>
  Modelled from the spec: the view state sink, which lives in the store module
  \<^verbatim>\<open>@/store\<close> and is not among the sources. In the words of the spec, it exposes a
  read-only snapshot \<^verbatim>\<open>{ items, count }\<close>, every mutation republishes the snapshot, and
  consumers never observe a partially updated one. So the sink takes what one update
  hands to its two entry points, the list and the count, and publishes them together as
  one snapshot; \<open>published\<close> is the sequence of snapshots consumers have observed.
\<close>

definition republish :: "template list \<Rightarrow> nat \<Rightarrow> store list \<Rightarrow> store list" where
  "republish xs n published = published @ [\<lparr>items = xs, count = n\<rparr>]"

text \<open>
  The effect of the source, one update: it hands \<^verbatim>\<open>filteredTemplates\<close> to
  \<^verbatim>\<open>setFilteredTemplates\<close> and \<^verbatim>\<open>filteredTemplates.length\<close> to \<^verbatim>\<open>setTemplatesCount\<close>.
\<close>

definition store_effect :: "template list \<Rightarrow> store list \<Rightarrow> store list" where
  "store_effect filtered published = republish filtered (length filtered) published"

text \<open>
  The view over a catalog: each mutation of the query text or of the tag selection leaves
  a debounced query and a selection, from which \<^verbatim>\<open>filteredTemplates\<close> is recomputed
  and handed to the effect. \<open>view_snapshots\<close> is what the sink has published after the
  mutations \<open>ms\<close>, given as the query and the selection each one leaves.
\<close>

definition view_snapshots ::
  "fuse_lib \<Rightarrow> template list \<Rightarrow> (string \<times> string list) list \<Rightarrow> store list" where
  "view_snapshots Fuse catalog ms =
     foldl (\<lambda>published m. store_effect (filteredTemplates Fuse catalog (fst m) (snd m)) published)
       [] ms"

section \<open>The maintenance script: \<^verbatim>\<open>dedupeAndSortMeta\<close>\<close>

subsection \<open>The parsed file and the runtime\<close>

text \<open>
  The script reads arbitrary JSON. An element of the parsed array either fails the test
  \<^verbatim>\<open>!item || typeof item !== "object"\<close> (\<open>NotObject\<close>: \<^verbatim>\<open>null\<close>, a number, a string,
  a boolean) or is an object, read as a template record whose identifier is a string,
  empty when it is missing. The parser, the printer, the clock and the two string
  functions used by the comparator belong to the runtime and are parameters.
\<close>

datatype json_item = NotObject | Object template

datatype parsed = JArray "json_item list" | JOther

record runtime =
  JSON_parse :: "string \<Rightarrow> parsed option"
  JSON_stringify :: "template list \<Rightarrow> string"
  Date_now :: nat
  toLowerCase :: "string \<Rightarrow> string"
  localeCompare :: "string \<Rightarrow> string \<Rightarrow> int"

datatype error =
  FileNotFound string
| InvalidJSON string
| ExpectedArray string

datatype diagnostic =
  SkippingInvalidItem nat
| SkippingItemWithoutID nat string
| DuplicateIDFound string string

type_synonym disk = "string \<Rightarrow> string option"

definition writeFileSync :: "string \<Rightarrow> string \<Rightarrow> disk \<Rightarrow> disk" where
  "writeFileSync path content d = d(path \<mapsto> content)"

subsection \<open>The loop that removes duplicates\<close>

text \<open>
  \<^verbatim>\<open>
  const seenIds = new Set(); const duplicates = []; const unique = [];
  data.forEach((item, index) => {
    if (!item || typeof item !== "object") {
      console.warn(`Skipping invalid item at index ${index}:`, item); return; }
    if (!item.id) {
      console.warn(`Skipping item without ID at index ${index}:`, item.name || "Unknown");
      return; }
    if (seenIds.has(item.id)) {
      duplicates.push({ id: item.id, name: item.name || "Unknown", originalIndex: index });
      console.warn(`Duplicate ID found: "${item.id}" (${item.name || "Unknown"})`);
    } else { seenIds.add(item.id); unique.push(item); }
  });
  \<close>
\<close>

record duplicate =
  dup_id :: string
  dup_name :: string
  originalIndex :: nat

record dedupe_state =
  seenIds :: "string set"
  duplicates :: "duplicate list"
  unique :: "template list"
  warned :: "diagnostic list"

definition name_or_unknown :: "template \<Rightarrow> string" where
  "name_or_unknown t = (if name t = [] then ''Unknown'' else name t)"

fun dedupe_body :: "dedupe_state \<Rightarrow> nat \<times> json_item \<Rightarrow> dedupe_state" where
  "dedupe_body st (index, NotObject) =
     st\<lparr>warned := warned st @ [SkippingInvalidItem index]\<rparr>"
| "dedupe_body st (index, Object t) =
     (if id' t = []
      then st\<lparr>warned := warned st @ [SkippingItemWithoutID index (name_or_unknown t)]\<rparr>
      else if id' t \<in> seenIds st
      then st\<lparr>duplicates := duplicates st @
                  [\<lparr>dup_id = id' t, dup_name = name_or_unknown t, originalIndex = index\<rparr>],
              warned := warned st @ [DuplicateIDFound (id' t) (name_or_unknown t)]\<rparr>
      else st\<lparr>seenIds := insert (id' t) (seenIds st), unique := unique st @ [t]\<rparr>)"

definition dedupe_from :: "dedupe_state \<Rightarrow> nat \<Rightarrow> json_item list \<Rightarrow> dedupe_state" where
  "dedupe_from st i data = foldl dedupe_body st (zip [i ..< i + length data] data)"

definition dedupe :: "json_item list \<Rightarrow> dedupe_state" where
  "dedupe data =
     dedupe_from \<lparr>seenIds = {}, duplicates = [], unique = [], warned = []\<rparr> 0 data"

text \<open>A record the loop skips: not an object, or an object without an identifier.\<close>

fun skipped :: "json_item \<Rightarrow> bool" where
  "skipped NotObject = True"
| "skipped (Object t) = (id' t = [])"

text \<open>The first element of the array that is an object with the identifier \<open>i\<close>.\<close>

fun has_id :: "string \<Rightarrow> json_item \<Rightarrow> bool" where
  "has_id i NotObject = False"
| "has_id i (Object t) = (id' t = i)"

definition first_with_id :: "json_item list \<Rightarrow> string \<Rightarrow> json_item option" where
  "first_with_id data i = find (has_id i) data"

text \<open>The warning the loop prints for a skipped element at position \<open>i\<close>.\<close>

definition skip_diagnostic :: "nat \<Rightarrow> json_item \<Rightarrow> diagnostic" where
  "skip_diagnostic i x =
     (case x of NotObject \<Rightarrow> SkippingInvalidItem i
      | Object t \<Rightarrow> SkippingItemWithoutID i (name_or_unknown t))"

text \<open>
  The invariant of the loop over the elements \<open>data\<close> read so far: \<^verbatim>\<open>seenIds\<close> holds
  the non-empty identifiers met, which are the identifiers of \<^verbatim>\<open>unique\<close>, without
  repetition, and \<^verbatim>\<open>unique\<close> holds exactly the first record of each of them.
\<close>

definition dedupe_inv :: "json_item list \<Rightarrow> dedupe_state \<Rightarrow> bool" where
  "dedupe_inv data st \<longleftrightarrow>
     (\<forall>i. i \<in> seenIds st \<longleftrightarrow> i \<noteq> [] \<and> first_with_id data i \<noteq> None) \<and>
     seenIds st = id' ` set (unique st) \<and>
     distinct (map id' (unique st)) \<and>
     (\<forall>t. t \<in> set (unique st) \<longleftrightarrow>
        id' t \<noteq> [] \<and> first_with_id data (id' t) = Some (Object t))"

subsection \<open>Sorting\<close>

text \<open>
  \<^verbatim>\<open>
  unique.sort((a, b) => {
    const idA = a.id.toLowerCase(); const idB = b.id.toLowerCase();
    return idA.localeCompare(idB);
  });
  \<close>
  \<^verbatim>\<open>Array.prototype.sort\<close> is stable, and sorts when the comparator is consistent.
  The model is the stable insertion sort; what it returns for an inconsistent comparator
  is not claimed of the runtime.
\<close>

definition compare_ids :: "runtime \<Rightarrow> template \<Rightarrow> template \<Rightarrow> int" where
  "compare_ids rt a b = localeCompare rt (toLowerCase rt (id' a)) (toLowerCase rt (id' b))"

fun insert_sorted :: "('a \<Rightarrow> 'a \<Rightarrow> int) \<Rightarrow> 'a \<Rightarrow> 'a list \<Rightarrow> 'a list" where
  "insert_sorted cmp x [] = [x]"
| "insert_sorted cmp x (y # ys) =
     (if cmp x y \<le> 0 then x # y # ys else y # insert_sorted cmp x ys)"

definition array_sort :: "('a \<Rightarrow> 'a \<Rightarrow> int) \<Rightarrow> 'a list \<Rightarrow> 'a list" where
  "array_sort cmp xs = foldr (insert_sorted cmp) xs []"

text \<open>
  A consistent comparator on strings: any two strings are comparable, and "not after"
  is transitive.
\<close>

definition consistent :: "(string \<Rightarrow> string \<Rightarrow> int) \<Rightarrow> bool" where
  "consistent cmp \<longleftrightarrow>
     (\<forall>a b. cmp a b \<le> 0 \<or> cmp b a \<le> 0) \<and>
     (\<forall>a b c. cmp a b \<le> 0 \<longrightarrow> cmp b c \<le> 0 \<longrightarrow> cmp a c \<le> 0)"

subsection \<open>The script\<close>

text \<open>
  \<^verbatim>\<open>
  if (!fs.existsSync(filePath)) throw new Error(`File not found: ${filePath}`);
  const fileContent = fs.readFileSync(filePath, "utf8");
  try { data = JSON.parse(fileContent); }
  catch (parseError) { throw new Error(`Invalid JSON in ${filePath}: ...`); }
  if (!Array.isArray(data)) throw new Error(`Expected an array in ${filePath}, ...`);
  ... the loop, the sort ...
  const backupPath = `${filePath}.backup.${Date.now()}`;
  fs.writeFileSync(backupPath, fileContent, "utf8");
  const newContent = JSON.stringify(unique, null, 2);
  fs.writeFileSync(filePath, newContent, "utf8");
  return { original: data.length, duplicatesRemoved: duplicates.length,
           final: unique.length, duplicates: duplicates };
  \<close>
  Every \<^verbatim>\<open>throw\<close> ends in the handler that prints the error and exits with status 1:
  the result \<open>Inl\<close>. A run that returns gives the returned statistics, the disk after
  the run, the file writes in the order they were made, and the warnings printed.
\<close>

record stats =
  original :: nat
  duplicatesRemoved :: nat
  final :: nat
  removed :: "duplicate list"

record outcome =
  returned :: stats
  disk_after :: disk
  writes :: "(string \<times> string) list"
  console :: "diagnostic list"

definition backupPath :: "runtime \<Rightarrow> string \<Rightarrow> string" where
  "backupPath rt filePath = filePath @ ''.backup.'' @ string_of_nat (Date_now rt)"

definition dedupeAndSortMeta :: "runtime \<Rightarrow> string \<Rightarrow> disk \<Rightarrow> error + outcome" where
  "dedupeAndSortMeta rt filePath d =
     (case d filePath of
        None \<Rightarrow> Inl (FileNotFound filePath)
      | Some fileContent \<Rightarrow>
          (case JSON_parse rt fileContent of
             None \<Rightarrow> Inl (InvalidJSON filePath)
           | Some JOther \<Rightarrow> Inl (ExpectedArray filePath)
           | Some (JArray data) \<Rightarrow>
               (let st = dedupe data;
                    sorted = array_sort (compare_ids rt) (unique st);
                    d1 = writeFileSync (backupPath rt filePath) fileContent d;
                    newContent = JSON_stringify rt sorted;
                    d2 = writeFileSync filePath newContent d1
                in Inr \<lparr>returned = \<lparr>original = length data,
                                       duplicatesRemoved = length (duplicates st),
                                       final = length sorted,
                                       removed = duplicates st\<rparr>,
                         disk_after = d2,
                         writes = [(backupPath rt filePath, fileContent),
                                   (filePath, newContent)],
                         console = warned st\<rparr>)))"

section \<open>Records and stand-ins used in the examples\<close>

text \<open>A record with the given identifier, name and tags, and nothing else filled in.\<close>

definition tpl :: "string \<Rightarrow> string \<Rightarrow> string list \<Rightarrow> template" where
  "tpl i n tg =
     \<lparr>id' = i, name = n, description = [], version = [], logo = None,
      links = \<lparr>github = None, website = None, docs = None\<rparr>, tags = tg\<rparr>"

text \<open>
  A stand-in for the library in the examples: it returns every indexed record, the last
  one first, whatever the query.
\<close>

definition backwards_Fuse :: fuse_lib where
  "backwards_Fuse opts ts q = map (\<lambda>t. \<lparr>item = t, refIndex = 0, score = 0\<rparr>) (rev ts)"

text \<open>
  A stand-in runtime for the examples: the file content \<^verbatim>\<open>raw\<close> parses to three
  records, two of them with the identifier \<^verbatim>\<open>b\<close>; the printer writes the identifiers,
  one per line; the clock reads 17; lower case is the identity; the comparator is the
  lexicographic order of the character codes.
\<close>

definition example_data :: "json_item list" where
  "example_data = [Object (tpl ''b'' ''first'' []), NotObject, Object (tpl ''a'' ''second'' []),
                   Object (tpl ''b'' ''third'' []), Object (tpl [] ''fourth'' [])]"

definition example_runtime :: runtime where
  "example_runtime =
     \<lparr>JSON_parse = (\<lambda>s. if s = ''raw'' then Some (JArray example_data) else None),
      JSON_stringify = (\<lambda>ts. concat (map (\<lambda>t. id' t @ ''/'') ts)),
      Date_now = 17,
      toLowerCase = (\<lambda>s. s),
      localeCompare = (\<lambda>a b. if a < b then - 1 else if a = b then 0 else 1)\<rparr>"

definition example_disk :: disk where
  "example_disk = [''meta.json'' \<mapsto> ''raw'']"

section \<open>Properties of the normalizer\<close>

lemma map_has_iff: "map_has m k \<longleftrightarrow> k \<in> fst ` set m"
  by (induction m) auto

lemma map_set_keys:
  "map fst (map_set k v m) = (if k \<in> fst ` set m then map fst m else map fst m @ [k])"
  by (induction m) (auto split: if_splits)

lemma map_set_subset: "set (map_set k v m) \<subseteq> insert (k, v) (set m)"
  by (induction m) (auto split: if_splits)

lemma map_set_mem: "(k, v) \<in> set (map_set k v m)"
  by (induction m) auto

lemma map_set_distinct: "distinct (map fst m) \<Longrightarrow> distinct (map fst (map_set k v m))"
  by (simp add: map_set_keys)

lemma normalize_from_snoc:
  "normalize_from st 0 (ts @ [t]) = forEach_body (normalize_from st 0 ts) (length ts, t)"
  by (simp add: normalize_from_def)

lemma stored_from_snoc: "stored_from ts kv \<Longrightarrow> stored_from (ts @ [t]) kv"
  unfolding stored_from_def
  by (metis (no_types, lifting) length_append_singleton less_Suc_eq nth_append)

lemma stored_from_new:
  "stored_from (ts @ [t]) (uniqueKey st (length ts) t, t\<lparr>id' := uniqueKey st (length ts) t\<rparr>)"
  unfolding stored_from_def
  by (rule conjI, simp, rule exI [of _ "length ts"]) (simp add: uniqueKey_def)

text \<open>
  The invariant of the loop: the keys of \<^verbatim>\<open>templateMap\<close> are pairwise distinct, and
  every entry is an input record stored under its own identifier.
\<close>

lemma normalize_invariant:
  "distinct (map fst (fst (normalize_from ([], {}) 0 ts))) \<and>
   (\<forall>kv \<in> set (fst (normalize_from ([], {}) 0 ts)). stored_from ts kv)"
proof (induction ts rule: rev_induct)
  case Nil
  show ?case by (simp add: normalize_from_def)
next
  case (snoc t ts)
  let ?st = "normalize_from ([], {}) 0 ts"
  let ?k = "uniqueKey ?st (length ts) t"
  have step: "fst (normalize_from ([], {}) 0 (ts @ [t])) = map_set ?k (t\<lparr>id' := ?k\<rparr>) (fst ?st)"
    by (simp add: normalize_from_snoc forEach_body_def Let_def)
  have d: "distinct (map fst (map_set ?k (t\<lparr>id' := ?k\<rparr>) (fst ?st)))"
    using snoc.IH by (simp add: map_set_distinct)
  have s: "stored_from (ts @ [t]) kv" if "kv \<in> set (map_set ?k (t\<lparr>id' := ?k\<rparr>) (fst ?st))" for kv
  proof -
    from that map_set_subset have "kv = (?k, t\<lparr>id' := ?k\<rparr>) \<or> kv \<in> set (fst ?st)"
      by fastforce
    then show ?thesis
      using snoc.IH stored_from_new stored_from_snoc by blast
  qed
  show ?case unfolding step using d s by blast
qed

lemma ids_are_keys:
  assumes "\<forall>kv \<in> set m. id' (snd kv) = fst kv"
  shows "map id' (map snd m) = map fst m"
  using assms by (induction m) auto

text \<open>
  The identifiers of the normalized catalog are pairwise distinct, and every record of
  it is an input record in which only the identifier may differ: it is the raw
  identifier, the name, or the name followed by \<^verbatim>\<open>-\<close> and the position.
\<close>

theorem uniqueTemplates_distinct_ids:
  "distinct (map id' (uniqueTemplates ts)) \<and>
   (\<forall>r \<in> set (uniqueTemplates ts). \<exists>i < length ts.
      r = (ts ! i)\<lparr>id' := id' r\<rparr> \<and>
      (id' r = id' (ts ! i) \<or> id' r = name (ts ! i) \<or>
       id' r = name (ts ! i) @ ''-'' @ string_of_nat i))"
proof (cases "ts = []")
  case True
  then show ?thesis by (simp add: uniqueTemplates_def)
next
  case False
  let ?m = "fst (normalize_from ([], {}) 0 ts)"
  have ut: "uniqueTemplates ts = map snd ?m"
    using False by (simp add: uniqueTemplates_def map_values_def)
  have inv: "distinct (map fst ?m)" "\<forall>kv \<in> set ?m. stored_from ts kv"
    using normalize_invariant [of ts] by blast+
  have "map id' (map snd ?m) = map fst ?m"
    using inv(2) by (intro ids_are_keys) (simp add: stored_from_def)
  then have a: "distinct (map id' (uniqueTemplates ts))"
    using inv(1) ut by (simp only:)
  have b: "\<exists>i < length ts. r = (ts ! i)\<lparr>id' := id' r\<rparr> \<and>
      (id' r = id' (ts ! i) \<or> id' r = name (ts ! i) \<or>
       id' r = name (ts ! i) @ ''-'' @ string_of_nat i)" if "r \<in> set (uniqueTemplates ts)" for r
  proof -
    from that ut obtain kv where kv: "kv \<in> set ?m" "r = snd kv" by auto
    with inv(2) have "stored_from ts kv" by blast
    then show ?thesis unfolding stored_from_def using kv(2) by metis
  qed
  show ?thesis using a b by blast
qed

text \<open>
  Claim C1. Normalization is to drop no record: every input record appears in the
  output, a record whose raw identifier is taken being re-keyed to its name or to its
  name and position. The code loses a record when the name a later record falls back to
  is a key of the map already: of two records with the raw identifier \<^verbatim>\<open>ghost\<close>, the
  first named \<^verbatim>\<open>Ghost\<close> and the second named \<^verbatim>\<open>ghost\<close>, the second is re-keyed to
  its name \<^verbatim>\<open>ghost\<close>, which no record was named before, and \<^verbatim>\<open>templateMap.set\<close>
  overwrites the first. The output has one record, and the one named \<^verbatim>\<open>Ghost\<close>, with
  its tags, is gone.
\<close>

theorem uniqueTemplates_drops_record:
  "uniqueTemplates [tpl ''ghost'' ''Ghost'' [''cms'', ''blog''], tpl ''ghost'' ''ghost'' [''cms'']] =
     [tpl ''ghost'' ''ghost'' [''cms'']]"
  by (simp add: uniqueTemplates_def normalize_from_def forEach_body_def uniqueKey_def
      map_values_def tpl_def Let_def)

text \<open>
  Claim C2. The normalized identifiers are pairwise distinct, and every record whose raw
  identifier collided or was missing is emitted under a synthesized identifier with its
  other fields kept. The first half holds (\<open>uniqueTemplates_distinct_ids\<close>). The second
  fails by the same overwrite as in C1: of three records without identifier, named
  \<^verbatim>\<open>A\<close>, \<^verbatim>\<open>A\<close> and \<^verbatim>\<open>A-1\<close>, the second is stored under the synthesized key
  \<^verbatim>\<open>A-1\<close>, and the third, whose name was not seen, is stored under its name \<^verbatim>\<open>A-1\<close>
  over it. The second record, with the tag \<^verbatim>\<open>y\<close>, is not emitted.
\<close>

theorem uniqueTemplates_drops_rekeyed_record:
  "uniqueTemplates [tpl [] ''A'' [''x''], tpl [] ''A'' [''y''], tpl [] ''A-1'' [''z'']] =
     [tpl ''A'' ''A'' [''x''], tpl ''A-1'' ''A-1'' [''z'']]"
  by (simp add: uniqueTemplates_def normalize_from_def forEach_body_def uniqueKey_def
      map_values_def tpl_def Let_def upt_conv_Cons string_of_nat.simps digit_char_def)

section \<open>Properties of the filter pipeline\<close>

lemma has_all_tags_iff: "has_all_tags sel t \<longleftrightarrow> set sel \<subseteq> set (tags t)"
  by (auto simp: has_all_tags_def list_all_iff)

lemma text_step_unfold:
  "text_step Fuse catalog q =
     (if trim q \<noteq> [] \<and> catalog \<noteq> [] then map item (Fuse grid_options catalog q) else catalog)"
  by (simp add: text_step_def fuse_def)

text \<open>
  Claim C3. With a non-empty selection of tags, the result of the pipeline is the working
  set of the first step (the items of the search results when the trimmed query is not
  empty and an index exists, the catalog otherwise) filtered by "the tags of the record
  include every selected tag": it holds exactly the records of the working set that
  carry all selected tags, as often and in the same relative order as the working set
  has them.
\<close>

theorem filteredTemplates_tags:
  assumes "selectedTags \<noteq> []"
  shows "text_step Fuse catalog q =
           (if trim q \<noteq> [] \<and> catalog \<noteq> [] then map item (Fuse grid_options catalog q)
            else catalog) \<and>
         filteredTemplates Fuse catalog q selectedTags =
           filter (\<lambda>t. \<forall>tag \<in> set selectedTags. tag \<in> set (tags t)) (text_step Fuse catalog q) \<and>
         (\<forall>t. t \<in> set (filteredTemplates Fuse catalog q selectedTags) \<longleftrightarrow>
              t \<in> set (text_step Fuse catalog q) \<and> set selectedTags \<subseteq> set (tags t)) \<and>
         subseq (filteredTemplates Fuse catalog q selectedTags) (text_step Fuse catalog q)"
proof -
  have p: "has_all_tags selectedTags = (\<lambda>t. \<forall>tag \<in> set selectedTags. tag \<in> set (tags t))"
    by (auto simp: has_all_tags_iff fun_eq_iff)
  have e: "filteredTemplates Fuse catalog q selectedTags =
      filter (has_all_tags selectedTags) (text_step Fuse catalog q)"
    using assms by (auto simp: filteredTemplates_def tag_step_def text_step_unfold)
  show ?thesis
    unfolding e by (auto simp: text_step_unfold p)
qed

theorem filteredTemplates_tags_witness:
  "filteredTemplates backwards_Fuse
     [tpl ''r'' ''Redis'' [''database'', ''cache''], tpl ''p'' ''Postgres'' [''database''],
      tpl ''m'' ''Memcached'' [''cache'', ''database'']] ''db'' [''database'', ''cache''] =
   [tpl ''m'' ''Memcached'' [''cache'', ''database''], tpl ''r'' ''Redis'' [''database'', ''cache'']]"
proof -
  have h: "[''database'', ''cache''] \<noteq> []" by simp
  show ?thesis
    using filteredTemplates_tags [OF h, of backwards_Fuse
       "[tpl ''r'' ''Redis'' [''database'', ''cache''], tpl ''p'' ''Postgres'' [''database''],
         tpl ''m'' ''Memcached'' [''cache'', ''database'']]" "''db''"]
    by (simp add: text_step_def fuse_def backwards_Fuse_def trim_def isWhiteSpace_def tpl_def)
qed

text \<open>
  Claim C4. With the debounced query equal to the empty string and no tag selected, the
  pipeline returns the catalog it was given, unchanged and in its order.
\<close>

theorem filteredTemplates_identity: "filteredTemplates Fuse catalog [] [] = catalog"
  by (simp add: filteredTemplates_def tag_step_def text_step_def fuse_def trim_def)

section \<open>Properties of the two index configurations\<close>

text \<open>
  Claim C8, as stated: in the search index configuration the name outweighs the
  description, which outweighs the tags. The claim names both configurations of the
  repository. In the hook \<^verbatim>\<open>useFuseSearch\<close> the description (1) does not outweigh the
  tags (1.5).
\<close>

theorem hook_weights_counterexample: "\<not> outweighs hook_options ''description'' ''tags''"
  by (simp add: outweighs_def hook_options_def)

text \<open>
  Claim C8, amended. In the index of \<^verbatim>\<open>TemplateGrid\<close>, which the filter pipeline
  searches, the name outweighs the description and the description outweighs the tags;
  in the hook \<^verbatim>\<open>useFuseSearch\<close> the order is name, tags, description, identifier.
\<close>

theorem index_weights:
  "outweighs grid_options ''name'' ''description'' \<and>
   outweighs grid_options ''description'' ''tags'' \<and>
   outweighs hook_options ''name'' ''tags'' \<and>
   outweighs hook_options ''tags'' ''description'' \<and>
   outweighs hook_options ''description'' ''id''"
  by (simp add: outweighs_def hook_options_def grid_options_def)

section \<open>Properties of the hook \<^verbatim>\<open>useFuseSearch\<close>\<close>

text \<open>
  Claim C10. For a query that is empty after trimming, or when the index is absent,
  \<^verbatim>\<open>search\<close> returns the template list unchanged and \<^verbatim>\<open>searchWithDetails\<close> returns
  the empty list. The index is absent exactly when the template list is empty; when it
  is not empty, the two entry points return different records for such a query.
\<close>

theorem search_blank:
  assumes "trim query = [] \<or> hook_fuse Fuse templates = None"
  shows "search Fuse templates query = templates \<and>
         searchWithDetails Fuse templates query = [] \<and>
         (hook_fuse Fuse templates = None \<longleftrightarrow> templates = []) \<and>
         (templates \<noteq> [] \<longrightarrow>
            map item (searchWithDetails Fuse templates query) \<noteq> search Fuse templates query)"
  using assms by (auto simp: search_def searchWithDetails_def hook_fuse_def split: if_splits)

theorem search_blank_witness:
  "search backwards_Fuse [tpl ''g'' ''Ghost'' []] '' '' = [tpl ''g'' ''Ghost'' []] \<and>
   searchWithDetails backwards_Fuse [tpl ''g'' ''Ghost'' []] '' '' = []"
proof -
  have h: "trim '' '' = [] \<or> hook_fuse backwards_Fuse [tpl ''g'' ''Ghost'' []] = None"
    by (simp add: trim_def isWhiteSpace_def)
  show ?thesis using search_blank [OF h] by simp
qed

section \<open>Properties of the view state sink\<close>

lemma view_snapshots_snoc:
  "view_snapshots Fuse catalog (ms @ [m]) =
     view_snapshots Fuse catalog ms @
       [\<lparr>items = filteredTemplates Fuse catalog (fst m) (snd m),
         count = length (filteredTemplates Fuse catalog (fst m) (snd m))\<rparr>]"
  by (simp add: view_snapshots_def store_effect_def republish_def)

lemma view_snapshots_length: "length (view_snapshots Fuse catalog ms) = length ms"
  by (induction ms rule: rev_induct) (simp_all add: view_snapshots_snoc, simp add: view_snapshots_def)

text \<open>
  Claim C6. After any mutations of the query text or the tag selection, the sink has
  published one snapshot for each, and every one of them holds the list
  \<^verbatim>\<open>filteredTemplates\<close> computed for the query and selection of that mutation together
  with a count equal to the length of that list: the count and the list of a snapshot
  come from the same update, and no snapshot has one without the other.
\<close>

theorem snapshot_consistent:
  "length (view_snapshots Fuse catalog ms) = length ms \<and>
   (\<forall>i < length ms.
      items (view_snapshots Fuse catalog ms ! i) =
        filteredTemplates Fuse catalog (fst (ms ! i)) (snd (ms ! i)) \<and>
      count (view_snapshots Fuse catalog ms ! i) =
        length (items (view_snapshots Fuse catalog ms ! i)))"
proof (induction ms rule: rev_induct)
  case Nil
  show ?case by (simp add: view_snapshots_def)
next
  case (snoc m ms)
  have len: "length (view_snapshots Fuse catalog ms) = length ms"
    using snoc.IH by blast
  show ?case
  proof (intro conjI allI impI)
    show "length (view_snapshots Fuse catalog (ms @ [m])) = length (ms @ [m])"
      by (simp add: view_snapshots_snoc len)
  next
    fix i assume i: "i < length (ms @ [m])"
    show "items (view_snapshots Fuse catalog (ms @ [m]) ! i) =
        filteredTemplates Fuse catalog (fst ((ms @ [m]) ! i)) (snd ((ms @ [m]) ! i))"
    proof (cases "i < length ms")
      case True
      then show ?thesis using snoc.IH by (simp add: view_snapshots_snoc nth_append len)
    next
      case False
      with i have "i = length ms" by simp
      then show ?thesis by (simp add: view_snapshots_snoc nth_append len)
    qed
  next
    fix i assume i: "i < length (ms @ [m])"
    show "count (view_snapshots Fuse catalog (ms @ [m]) ! i) =
        length (items (view_snapshots Fuse catalog (ms @ [m]) ! i))"
    proof (cases "i < length ms")
      case True
      then show ?thesis using snoc.IH by (simp add: view_snapshots_snoc nth_append len)
    next
      case False
      with i have "i = length ms" by simp
      then show ?thesis by (simp add: view_snapshots_snoc nth_append len)
    qed
  qed
qed

theorem snapshot_consistent_witness:
  "length (view_snapshots backwards_Fuse
        [tpl ''r'' ''Redis'' [''database'', ''cache''], tpl ''p'' ''Postgres'' [''database'']]
        [([], []), ([], [''cache'']), (''x'', [''cache'', ''queue''])]) = 3 \<and>
   items (view_snapshots backwards_Fuse
        [tpl ''r'' ''Redis'' [''database'', ''cache''], tpl ''p'' ''Postgres'' [''database'']]
        [([], []), ([], [''cache'']), (''x'', [''cache'', ''queue''])] ! 1) =
     [tpl ''r'' ''Redis'' [''database'', ''cache'']] \<and>
   count (view_snapshots backwards_Fuse
        [tpl ''r'' ''Redis'' [''database'', ''cache''], tpl ''p'' ''Postgres'' [''database'']]
        [([], []), ([], [''cache'']), (''x'', [''cache'', ''queue''])] ! 1) = 1"
proof -
  let ?cat = "[tpl ''r'' ''Redis'' [''database'', ''cache''], tpl ''p'' ''Postgres'' [''database'']]"
  let ?ms = "[([], []), ([], [''cache'']), (''x'', [''cache'', ''queue''])]"
  have f1: "filteredTemplates backwards_Fuse ?cat [] [''cache''] =
      [tpl ''r'' ''Redis'' [''database'', ''cache'']]"
    by (simp add: filteredTemplates_def tag_step_def text_step_def fuse_def trim_def
        has_all_tags_def tpl_def)
  have i: "(1::nat) < length ?ms" by simp
  from snapshot_consistent [of backwards_Fuse ?cat ?ms] i
  have "length (view_snapshots backwards_Fuse ?cat ?ms) = length ?ms"
    and "items (view_snapshots backwards_Fuse ?cat ?ms ! 1) =
        filteredTemplates backwards_Fuse ?cat (fst (?ms ! 1)) (snd (?ms ! 1))"
    and "count (view_snapshots backwards_Fuse ?cat ?ms ! 1) =
        length (items (view_snapshots backwards_Fuse ?cat ?ms ! 1))"
    by blast+
  then show ?thesis using f1 by simp
qed

section \<open>Properties of the debouncer\<close>

lemma fire_owned: "owned s \<Longrightarrow> owned (fire s tm)"
  by (simp add: owned_def fire_def list_all_iff)

lemma foldl_fire_owned: "owned s \<Longrightarrow> owned (foldl fire s tms)"
  by (induction tms arbitrary: s) (simp_all add: fire_owned)

lemma advance_owned: "owned s \<Longrightarrow> owned (advance now s)"
  by (simp add: advance_def foldl_fire_owned)

lemma fire_deps: "value' (fire s tm) = value' s \<and> delay (fire s tm) = delay s"
  by (simp add: fire_def)

lemma foldl_fire_deps:
  "value' (foldl fire s tms) = value' s \<and> delay (foldl fire s tms) = delay s"
  by (induction tms arbitrary: s) (simp_all add: fire_deps)

lemma advance_deps: "value' (advance now s) = value' s \<and> delay (advance now s) = delay s"
  by (simp add: advance_def foldl_fire_deps)

lemma cleanup_owned_timers: "owned s \<Longrightarrow> timers (cleanup s) = []"
  by (cases "handler s") (auto simp: owned_def cleanup_def list_all_iff filter_empty_conv)

lemma cleanup_emitted: "emitted (cleanup s) = emitted s"
  by (simp add: cleanup_def split: option.splits)

lemma restart_waiting:
  assumes "owned s"
  shows "waiting now v (effect now ((cleanup s)\<lparr>value' := v, delay := 300\<rparr>))"
  using cleanup_owned_timers [OF assms] by (simp add: waiting_def effect_def)

lemma waiting_owned: "waiting t v s \<Longrightarrow> owned s"
  by (auto simp: waiting_def owned_def split: option.splits)

lemma mount_waiting: "waiting now v (mount now v 300)"
  by (simp add: mount_def effect_def waiting_def)

lemma render_changed:
  assumes "owned s" and "v \<noteq> value' s"
  shows "waiting now v (render now v 300 s) \<and> emitted (render now v 300 s) = emitted (advance now s)"
proof -
  let ?s1 = "advance now s"
  have o: "owned ?s1" using assms(1) by (rule advance_owned)
  have r: "render now v 300 s = effect now ((cleanup ?s1)\<lparr>value' := v, delay := 300\<rparr>)"
    using assms(2) by (simp add: render_def Let_def advance_deps)
  show ?thesis
    unfolding r using restart_waiting [OF o] by (simp add: effect_def cleanup_emitted)
qed

lemma render_owned: "owned s \<Longrightarrow> owned (render now v 300 s)"
proof (cases "v = value' s")
  case True
  assume o: "owned s"
  then have "delay s = 300" by (simp add: owned_def)
  then have "render now v 300 s = advance now s"
    using True by (simp add: render_def Let_def advance_deps)
  then show ?thesis using o by (simp add: advance_owned)
next
  case False
  assume "owned s"
  then show ?thesis using render_changed [OF _ False] waiting_owned by blast
qed

lemma updates_owned: "owned s \<Longrightarrow> owned (updates s us)"
  unfolding updates_def by (induction us arbitrary: s) (simp_all add: render_owned)

lemma reachable_owned: "owned (debouncedSearchQuery t0 v0 us)"
  unfolding debouncedSearchQuery_def
  by (intro updates_owned waiting_owned [OF mount_waiting])

lemma waiting_advance_early:
  assumes "waiting t v s" and "T < t + 300"
  shows "advance T s = s"
  using assms by (auto simp: waiting_def advance_def split: option.splits)

lemma waiting_advance_late:
  assumes "waiting t v s" and "t + 300 \<le> T"
  shows "emitted (advance T s) = emitted s @ [(t + 300, v)] \<and>
         debouncedValue (advance T s) = v \<and> timers (advance T s) = []"
  using assms by (auto simp: waiting_def advance_def fire_def split: option.splits)

lemma waiting_render:
  assumes "waiting t v s" and "t' < t + 300" and "v' \<noteq> v"
  shows "waiting t' v' (render t' v' 300 s) \<and> emitted (render t' v' 300 s) = emitted s"
proof -
  have "value' s = v" using assms(1) by (simp add: waiting_def)
  then have "v' \<noteq> value' s" using assms(3) by simp
  from render_changed [OF waiting_owned [OF assms(1)] this, of t']
  show ?thesis by (simp add: waiting_advance_early [OF assms(1,2)])
qed

lemma updates_Cons: "updates s (u # us) = updates (render (fst u) (snd u) 300 s) us"
  by (simp add: updates_def)

lemma burst_waiting:
  assumes "waiting (fst u) (snd u) s" and "burst (u # us)"
  shows "waiting (fst (last (u # us))) (snd (last (u # us))) (updates s us) \<and>
         emitted (updates s us) = emitted s"
  using assms
proof (induction us arbitrary: u s)
  case Nil
  then show ?case by (simp add: updates_def)
next
  case (Cons u' us)
  from Cons.prems have b: "fst u' < fst u + 300" "snd u' \<noteq> snd u" "burst (u' # us)"
    by simp_all
  from waiting_render [OF Cons.prems(1) b(1,2)]
  have w: "waiting (fst u') (snd u') (render (fst u') (snd u') 300 s)"
    and e: "emitted (render (fst u') (snd u') 300 s) = emitted s" by simp_all
  from Cons.IH [OF w b(3)] e show ?case by (simp add: updates_Cons)
qed

lemma burst_start:
  assumes "owned s" and "us \<noteq> []" and "burst us" and "snd (hd us) \<noteq> value' s"
  shows "waiting (fst (last us)) (snd (last us)) (updates s us) \<and>
         emitted (updates s us) = emitted (advance (fst (hd us)) s)"
proof -
  from assms(2) obtain u rest where us: "us = u # rest" by (cases us) auto
  have c: "snd u \<noteq> value' s" using assms(4) us by simp
  from render_changed [OF assms(1) c, of "fst u"]
  have w: "waiting (fst u) (snd u) (render (fst u) (snd u) 300 s)"
    and e: "emitted (render (fst u) (snd u) 300 s) = emitted (advance (fst u) s)" by simp_all
  from burst_waiting [OF w] assms(3) us e show ?thesis by (simp add: updates_Cons)
qed

lemma burst_take: "burst us \<Longrightarrow> burst (take k us)"
proof (induction us arbitrary: k rule: burst.induct)
  case 1
  then show ?case by simp
next
  case (2 u)
  then show ?case by (cases k) simp_all
next
  case (3 u u' us)
  show ?case
  proof (cases k)
    case 0
    then show ?thesis by simp
  next
    case (Suc j)
    show ?thesis
    proof (cases j)
      case 0
      with Suc show ?thesis by simp
    next
      case (Suc i)
      from 3 have "burst (take j (u' # us))" by simp
      with 3(2) Suc \<open>k = Suc j\<close> show ?thesis by simp
    qed
  qed
qed

text \<open>
  Claim C5. The hook has been mounted and has seen any updates \<open>pre\<close>. Then a burst
  \<open>us\<close> of query updates arrives: each changes the query text and comes less than 300
  after the one before. Once 300 have passed since the last update, exactly one value has
  been emitted since the burst began, the value of the last update, at 300 after it; the
  cell holds that value and no timer is pending. After each update of the burst exactly
  one timer is pending, the one of that update (the timer of the update before it has
  been cleared), and until it is due nothing has been emitted since the burst began, so
  no earlier value of the burst is ever emitted.
\<close>

theorem debounce_burst:
  assumes "us \<noteq> []" and "burst us"
    and "snd (hd us) \<noteq> value' (debouncedSearchQuery t0 v0 pre)"
    and "fst (last us) + 300 \<le> T"
  shows "emitted (advance T (updates (debouncedSearchQuery t0 v0 pre) us)) =
           emitted (advance (fst (hd us)) (debouncedSearchQuery t0 v0 pre)) @
             [(fst (last us) + 300, snd (last us))] \<and>
         debouncedValue (advance T (updates (debouncedSearchQuery t0 v0 pre) us)) = snd (last us) \<and>
         timers (advance T (updates (debouncedSearchQuery t0 v0 pre) us)) = [] \<and>
         (\<forall>k T'. 0 < k \<and> k \<le> length us \<and> T' < fst (us ! (k - 1)) + 300 \<longrightarrow>
            waiting (fst (us ! (k - 1))) (snd (us ! (k - 1)))
              (updates (debouncedSearchQuery t0 v0 pre) (take k us)) \<and>
            emitted (advance T' (updates (debouncedSearchQuery t0 v0 pre) (take k us))) =
              emitted (advance (fst (hd us)) (debouncedSearchQuery t0 v0 pre)))"
proof -
  let ?s = "debouncedSearchQuery t0 v0 pre"
  have o: "owned ?s" by (rule reachable_owned)
  from burst_start [OF o assms(1,2,3)]
  have w: "waiting (fst (last us)) (snd (last us)) (updates ?s us)"
    and e: "emitted (updates ?s us) = emitted (advance (fst (hd us)) ?s)" by simp_all
  have fin: "emitted (advance T (updates ?s us)) =
       emitted (advance (fst (hd us)) ?s) @ [(fst (last us) + 300, snd (last us))] \<and>
     debouncedValue (advance T (updates ?s us)) = snd (last us) \<and>
     timers (advance T (updates ?s us)) = []"
    using waiting_advance_late [OF w assms(4)] e by simp
  have pre: "waiting (fst (us ! (k - 1))) (snd (us ! (k - 1))) (updates ?s (take k us)) \<and>
      emitted (advance T' (updates ?s (take k us))) = emitted (advance (fst (hd us)) ?s)"
    if k: "0 < k" "k \<le> length us" and T': "T' < fst (us ! (k - 1)) + 300" for k T'
  proof -
    have ne: "take k us \<noteq> []" using k assms(1) by simp
    have hd: "hd (take k us) = hd us" using k by (cases us; cases k) simp_all
    have la: "last (take k us) = us ! (k - 1)"
      using k ne by (simp add: last_conv_nth min_def)
    from burst_start [OF o ne burst_take [OF assms(2)]] assms(3) hd la
    have w': "waiting (fst (us ! (k - 1))) (snd (us ! (k - 1))) (updates ?s (take k us))"
      and e': "emitted (updates ?s (take k us)) = emitted (advance (fst (hd us)) ?s)"
      by simp_all
    show ?thesis using w' e' waiting_advance_early [OF w' T'] by simp
  qed
  show ?thesis using fin pre by blast
qed


theorem debounce_burst_witness:
  "emitted (advance 1550 (updates (debouncedSearchQuery 0 [] [])
      [(1000, ''a''), (1100, ''ab''), (1250, ''abc'')])) = [(300, []), (1550, ''abc'')]"
proof -
  have h1: "[(1000::nat, ''a''), (1100, ''ab''), (1250, ''abc'')] \<noteq> []" by simp
  have h2: "burst [(1000, ''a''), (1100, ''ab''), (1250, ''abc'')]" by simp
  have h3: "snd (hd [(1000::nat, ''a''), (1100, ''ab''), (1250, ''abc'')]) \<noteq>
      value' (debouncedSearchQuery 0 [] [])"
    by (simp add: debouncedSearchQuery_def updates_def mount_def effect_def)
  have h4: "fst (last [(1000::nat, ''a''), (1100, ''ab''), (1250, ''abc'')]) + 300 \<le> 1550"
    by simp
  have a: "emitted (advance 1000 (debouncedSearchQuery 0 [] [])) = [(300, [])]"
    by (simp add: debouncedSearchQuery_def updates_def mount_def effect_def advance_def fire_def)
  show ?thesis
    using debounce_burst [OF h1 h2 h3 h4] a by simp
qed

section \<open>Properties of the maintenance script\<close>

lemma dedupe_from_Cons:
  "dedupe_from st i (y # ys) = dedupe_from (dedupe_body st (i, y)) (Suc i) ys"
  by (simp add: dedupe_from_def upt_conv_Cons del: upt_Suc)

lemma dedupe_from_Nil: "dedupe_from st i [] = st"
  by (simp add: dedupe_from_def)

lemma dedupe_from_append:
  "dedupe_from st i (xs @ ys) = dedupe_from (dedupe_from st i xs) (i + length xs) ys"
  by (induction xs arbitrary: st i) (simp_all add: dedupe_from_Cons dedupe_from_Nil)

lemma dedupe_snoc: "dedupe (xs @ [x]) = dedupe_body (dedupe xs) (length xs, x)"
  by (simp add: dedupe_def dedupe_from_append dedupe_from_Cons dedupe_from_Nil)

lemma dedupe_body_skipped:
  "skipped x \<Longrightarrow> seenIds (dedupe_body st (i, x)) = seenIds st \<and>
     unique (dedupe_body st (i, x)) = unique st \<and>
     duplicates (dedupe_body st (i, x)) = duplicates st"
  by (cases x) simp_all

lemma dedupe_body_index:
  assumes "seenIds st = seenIds st'" and "unique st = unique st'"
  shows "seenIds (dedupe_body st (i, x)) = seenIds (dedupe_body st' (j, x)) \<and>
         unique (dedupe_body st (i, x)) = unique (dedupe_body st' (j, x))"
  using assms by (cases x) simp_all

lemma dedupe_from_index:
  assumes "seenIds st = seenIds st'" and "unique st = unique st'"
  shows "seenIds (dedupe_from st i ys) = seenIds (dedupe_from st' j ys) \<and>
         unique (dedupe_from st i ys) = unique (dedupe_from st' j ys)"
  using assms
proof (induction ys arbitrary: st st' i j)
  case Nil
  then show ?case by (simp add: dedupe_from_Nil)
next
  case (Cons y ys)
  from dedupe_body_index [OF Cons.prems, of i y j]
  show ?case unfolding dedupe_from_Cons by (intro Cons.IH) simp_all
qed

lemma warned_body: "set (warned st) \<subseteq> set (warned (dedupe_body st (i, x)))"
  by (cases x) auto

lemma warned_from: "set (warned st) \<subseteq> set (warned (dedupe_from st i ys))"
proof (induction ys arbitrary: st i)
  case Nil
  then show ?case by (simp add: dedupe_from_Nil)
next
  case (Cons y ys)
  show ?case unfolding dedupe_from_Cons using warned_body Cons.IH by blast
qed

lemma skipped_warned:
  "skipped x \<Longrightarrow>
     (case x of NotObject \<Rightarrow> SkippingInvalidItem i
      | Object t \<Rightarrow> SkippingItemWithoutID i (name_or_unknown t))
     \<in> set (warned (dedupe_body st (i, x)))"
  by (cases x) simp_all

lemma last_stored:
  "t\<lparr>id' := uniqueKey (normalize_from ([], {}) 0 ts) (length ts) t\<rparr>
     \<in> set (uniqueTemplates (ts @ [t]))"
proof -
  let ?st = "normalize_from ([], {}) 0 ts"
  let ?k = "uniqueKey ?st (length ts) t"
  have "uniqueTemplates (ts @ [t]) = map snd (map_set ?k (t\<lparr>id' := ?k\<rparr>) (fst ?st))"
    by (simp add: uniqueTemplates_def map_values_def normalize_from_snoc forEach_body_def Let_def)
  moreover have "(?k, t\<lparr>id' := ?k\<rparr>) \<in> set (map_set ?k (t\<lparr>id' := ?k\<rparr>) (fst ?st))"
    by (rule map_set_mem)
  ultimately show ?thesis by force
qed

text \<open>
  Claim C7, as stated: during normalization a record that lacks a usable name when the
  fallback to the name is needed is skipped with a diagnostic. A record with neither
  identifier nor name is not skipped by \<^verbatim>\<open>uniqueTemplates\<close>: it is emitted, under the
  empty identifier.
\<close>

theorem uniqueTemplates_skips_nothing:
  "uniqueTemplates [tpl [] [] []] = [tpl [] [] []]"
  by (simp add: uniqueTemplates_def normalize_from_def forEach_body_def uniqueKey_def
      map_values_def tpl_def Let_def)

text \<open>
  Claim C7, amended. The skipping is the maintenance script's: an element of the array
  that is not an object, or is an object without identifier, is left out with a warning
  that names its position, and the loop goes on, so the records kept are those of the
  array without that element. The normalization in the application skips nothing and
  prints nothing: each record, when its turn comes, is stored under its key, whatever its
  identifier and name.
\<close>

theorem skipping_is_the_scripts:
  assumes "skipped x"
  shows "unique (dedupe (xs @ x # ys)) = unique (dedupe (xs @ ys)) \<and>
         skip_diagnostic (length xs) x \<in> set (warned (dedupe (xs @ x # ys))) \<and>
         t\<lparr>id' := uniqueKey (normalize_from ([], {}) 0 ts) (length ts) t\<rparr>
           \<in> set (uniqueTemplates (ts @ [t]))"
proof -
  let ?st = "dedupe xs"
  let ?st' = "dedupe_body ?st (length xs, x)"
  have a: "dedupe (xs @ x # ys) = dedupe_from ?st' (Suc (length xs)) ys"
    by (simp add: dedupe_def dedupe_from_append dedupe_from_Cons)
  have b: "dedupe (xs @ ys) = dedupe_from ?st (length xs) ys"
    by (simp add: dedupe_def dedupe_from_append)
  have s: "seenIds ?st' = seenIds ?st" "unique ?st' = unique ?st"
    using dedupe_body_skipped [OF assms] by simp_all
  have u: "unique (dedupe (xs @ x # ys)) = unique (dedupe (xs @ ys))"
    unfolding a b using dedupe_from_index [OF s] by simp
  have "skip_diagnostic (length xs) x \<in> set (warned ?st')"
    unfolding skip_diagnostic_def by (rule skipped_warned [OF assms])
  then have w: "skip_diagnostic (length xs) x \<in> set (warned (dedupe (xs @ x # ys)))"
    unfolding a using warned_from by blast
  show ?thesis using u w last_stored by blast
qed



theorem skipping_witness:
  "unique (dedupe ([Object (tpl ''b'' ''first'' [])] @ NotObject # [Object (tpl ''a'' ''second'' [])])) =
     [tpl ''b'' ''first'' [], tpl ''a'' ''second'' []] \<and>
   SkippingInvalidItem 1 \<in> set (warned (dedupe ([Object (tpl ''b'' ''first'' [])] @ NotObject # [Object (tpl ''a'' ''second'' [])])))"
proof -
  have h: "skipped NotObject" by simp
  have e: "unique (dedupe ([Object (tpl ''b'' ''first'' [])] @ [Object (tpl ''a'' ''second'' [])])) =
     [tpl ''b'' ''first'' [], tpl ''a'' ''second'' []]"
    by (simp add: dedupe_def dedupe_from_def tpl_def upt_conv_Cons)
  show ?thesis
    using skipping_is_the_scripts [OF h, of "[Object (tpl ''b'' ''first'' [])]"
        "[Object (tpl ''a'' ''second'' [])]"] e
    by (simp add: skip_diagnostic_def)
qed

lemma first_with_id_snoc:
  "first_with_id (xs @ [x]) i =
     (case first_with_id xs i of Some y \<Rightarrow> Some y
      | None \<Rightarrow> if has_id i x then Some x else None)"
  unfolding first_with_id_def by (induction xs) simp_all

lemma first_with_id_has: "first_with_id xs i = Some y \<Longrightarrow> has_id i y"
  unfolding first_with_id_def by (induction xs) (auto split: if_splits)

lemma dedupe_inv_fields:
  assumes "seenIds st' = seenIds st" and "unique st' = unique st" and "dedupe_inv data st"
  shows "dedupe_inv data st'"
  using assms(3) unfolding dedupe_inv_def assms(1,2) .

lemma dedupe_inv_data:
  assumes "\<And>j. j \<noteq> [] \<Longrightarrow> first_with_id data' j = first_with_id data j"
    and "dedupe_inv data st"
  shows "dedupe_inv data' st"
proof -
  have e1: "(j \<noteq> [] \<and> first_with_id data' j \<noteq> None) =
      (j \<noteq> [] \<and> first_with_id data j \<noteq> None)" for j
    using assms(1) [of j] by (cases "j = []") simp_all
  have e2: "(id' t \<noteq> [] \<and> first_with_id data' (id' t) = Some (Object t)) =
      (id' t \<noteq> [] \<and> first_with_id data (id' t) = Some (Object t))" for t
    using assms(1) [of "id' t"] by (cases "id' t = []") simp_all
  show ?thesis
    using assms(2) unfolding dedupe_inv_def e1 e2 .
qed

lemma dedupe_inv_step:
  assumes "dedupe_inv xs st"
  shows "dedupe_inv (xs @ [x]) (dedupe_body st (i, x))"
proof (cases x)
  case NotObject
  have f: "first_with_id (xs @ [x]) j = first_with_id xs j" for j
    using NotObject by (simp add: first_with_id_snoc split: option.splits)
  have "dedupe_inv (xs @ [x]) st" by (rule dedupe_inv_data [OF f assms])
  then show ?thesis
    using dedupe_inv_fields [of "dedupe_body st (i, x)" st "xs @ [x]"] NotObject by simp
next
  case (Object t)
  show ?thesis
  proof (cases "id' t = []")
    case True
    have f: "first_with_id (xs @ [x]) j = first_with_id xs j" if "j \<noteq> []" for j
      using that True Object by (auto simp: first_with_id_snoc split: option.splits)
    have "dedupe_inv (xs @ [x]) st" by (rule dedupe_inv_data [OF f assms])
    then show ?thesis
      using dedupe_inv_fields [of "dedupe_body st (i, x)" st "xs @ [x]"] True Object by simp
  next
    case False
    have i1: "j \<in> seenIds st \<longleftrightarrow> j \<noteq> [] \<and> first_with_id xs j \<noteq> None" for j
      using assms unfolding dedupe_inv_def by blast
    show ?thesis
    proof (cases "id' t \<in> seenIds st")
      case True
      then have "first_with_id xs (id' t) \<noteq> None"
        using i1 [of "id' t"] by simp
      then have f: "first_with_id (xs @ [x]) j = first_with_id xs j" for j
        using Object by (auto simp: first_with_id_snoc split: option.splits)
      have "dedupe_inv (xs @ [x]) st" by (rule dedupe_inv_data [OF f assms])
      then show ?thesis
        using dedupe_inv_fields [of "dedupe_body st (i, x)" st "xs @ [x]"] True False Object
        by simp
    next
      case new: False
      have i2: "seenIds st = id' ` set (unique st)"
        using assms unfolding dedupe_inv_def by blast
      have i3: "distinct (map id' (unique st))"
        using assms unfolding dedupe_inv_def by blast
      have i4: "r \<in> set (unique st) \<longleftrightarrow>
          id' r \<noteq> [] \<and> first_with_id xs (id' r) = Some (Object r)" for r
        using assms unfolding dedupe_inv_def by blast
      have none: "first_with_id xs (id' t) = None"
        using new False i1 [of "id' t"] by simp
      have other: "first_with_id (xs @ [x]) j = first_with_id xs j" if "j \<noteq> id' t" for j
        using that Object by (auto simp: first_with_id_snoc split: option.splits)
      have here: "first_with_id (xs @ [x]) (id' t) = Some (Object t)"
        using none Object by (simp add: first_with_id_snoc)
      have st': "dedupe_body st (i, x) =
          st\<lparr>seenIds := insert (id' t) (seenIds st), unique := unique st @ [t]\<rparr>"
        using new False Object by simp
      have a: "j \<in> insert (id' t) (seenIds st) \<longleftrightarrow>
          j \<noteq> [] \<and> first_with_id (xs @ [x]) j \<noteq> None" for j
      proof (cases "j = id' t")
        case True
        then show ?thesis using False here by simp
      next
        case ne: False
        then show ?thesis using i1 [of j] other [OF ne] by simp
      qed
      have b: "insert (id' t) (seenIds st) = id' ` set (unique st @ [t])"
        using i2 by simp
      have "id' t \<notin> id' ` set (unique st)"
        using new i2 by simp
      then have c: "distinct (map id' (unique st @ [t]))"
        using i3 by simp
      have d: "r \<in> set (unique st @ [t]) \<longleftrightarrow>
          id' r \<noteq> [] \<and> first_with_id (xs @ [x]) (id' r) = Some (Object r)" for r
      proof (cases "id' r = id' t")
        case True
        have "r \<notin> set (unique st)"
        proof
          assume "r \<in> set (unique st)"
          then have "id' r \<in> id' ` set (unique st)" by (rule imageI)
          then have "id' t \<in> seenIds st" by (simp only: i2 True)
          with new show False by contradiction
        qed
        then have lhs: "r \<in> set (unique st @ [t]) \<longleftrightarrow> r = t" by simp
        have "first_with_id (xs @ [x]) (id' r) = Some (Object t)"
          using True here by simp
        then have rhs: "id' r \<noteq> [] \<and> first_with_id (xs @ [x]) (id' r) = Some (Object r) \<longleftrightarrow> r = t"
          using True False by (simp add: eq_commute [of t r])
        show ?thesis unfolding lhs rhs ..
      next
        case ne: False
        then have "r \<noteq> t" by blast
        then have lhs: "r \<in> set (unique st @ [t]) \<longleftrightarrow> r \<in> set (unique st)" by simp
        show ?thesis unfolding lhs i4 [of r] other [OF ne] ..
      qed
      have inv': "dedupe_inv (xs @ [x])
          (st\<lparr>seenIds := insert (id' t) (seenIds st), unique := unique st @ [t]\<rparr>)"
        unfolding dedupe_inv_def
      proof (intro conjI allI)
        fix j
        show "j \<in> seenIds (st\<lparr>seenIds := insert (id' t) (seenIds st), unique := unique st @ [t]\<rparr>) \<longleftrightarrow>
            j \<noteq> [] \<and> first_with_id (xs @ [x]) j \<noteq> None"
          using a [of j] by simp
      next
        show "seenIds (st\<lparr>seenIds := insert (id' t) (seenIds st), unique := unique st @ [t]\<rparr>) =
            id' ` set (unique (st\<lparr>seenIds := insert (id' t) (seenIds st), unique := unique st @ [t]\<rparr>))"
          using b by simp
      next
        show "distinct (map id' (unique (st\<lparr>seenIds := insert (id' t) (seenIds st), unique := unique st @ [t]\<rparr>)))"
          using c by simp
      next
        fix r
        show "r \<in> set (unique (st\<lparr>seenIds := insert (id' t) (seenIds st), unique := unique st @ [t]\<rparr>)) \<longleftrightarrow>
            id' r \<noteq> [] \<and> first_with_id (xs @ [x]) (id' r) = Some (Object r)"
          using d [of r] by simp
      qed
      show ?thesis unfolding st' by (rule inv')
    qed
  qed
qed

lemma dedupe_invariant: "dedupe_inv data (dedupe data)"
proof (induction data rule: rev_induct)
  case Nil
  show ?case by (simp add: dedupe_inv_def dedupe_def dedupe_from_Nil first_with_id_def)
next
  case (snoc x xs)
  then show ?case by (simp add: dedupe_snoc dedupe_inv_step)
qed

lemma mset_insert_sorted: "mset (insert_sorted cmp x xs) = add_mset x (mset xs)"
  by (induction xs) simp_all

lemma mset_array_sort: "mset (array_sort cmp xs) = mset xs"
  unfolding array_sort_def by (induction xs) (simp_all add: mset_insert_sorted)

lemma set_insert_sorted: "set (insert_sorted cmp x xs) = insert x (set xs)"
  using mset_insert_sorted [of cmp x xs] by (metis set_mset_add_mset_insert set_mset_mset)

lemma sorted_insert_sorted:
  assumes tot: "\<And>a b. cmp a b \<le> 0 \<or> cmp b a \<le> 0"
    and trans: "\<And>a b c. cmp a b \<le> 0 \<Longrightarrow> cmp b c \<le> 0 \<Longrightarrow> cmp a c \<le> 0"
    and "sorted_wrt (\<lambda>a b. cmp a b \<le> 0) xs"
  shows "sorted_wrt (\<lambda>a b. cmp a b \<le> 0) (insert_sorted cmp x xs)"
  using assms(3)
proof (induction xs)
  case Nil
  then show ?case by simp
next
  case (Cons y ys)
  show ?case
  proof (cases "cmp x y \<le> 0")
    case True
    then have "\<forall>z \<in> set ys. cmp x z \<le> 0"
      using Cons.prems trans by auto
    then show ?thesis using True Cons.prems by simp
  next
    case False
    then have "cmp y x \<le> 0" using tot by blast
    then show ?thesis
      using False Cons by (auto simp: set_insert_sorted)
  qed
qed

lemma sorted_array_sort:
  assumes tot: "\<And>a b. cmp a b \<le> 0 \<or> cmp b a \<le> 0"
    and trans: "\<And>a b c. cmp a b \<le> 0 \<Longrightarrow> cmp b c \<le> 0 \<Longrightarrow> cmp a c \<le> 0"
  shows "sorted_wrt (\<lambda>a b. cmp a b \<le> 0) (array_sort cmp xs)"
  unfolding array_sort_def
  by (induction xs) (simp_all add: sorted_insert_sorted [OF tot trans])

lemma sorted_compare_ids:
  assumes "consistent (localeCompare rt)"
  shows "sorted_wrt (\<lambda>a b. compare_ids rt a b \<le> 0) (array_sort (compare_ids rt) xs)"
proof (rule sorted_array_sort)
  show "compare_ids rt a b \<le> 0 \<or> compare_ids rt b a \<le> 0" for a b
    using assms unfolding consistent_def compare_ids_def by blast
  show "compare_ids rt a b \<le> 0 \<Longrightarrow> compare_ids rt b c \<le> 0 \<Longrightarrow> compare_ids rt a c \<le> 0" for a b c
    using assms unfolding consistent_def compare_ids_def by blast
qed

lemma backupPath_differs: "backupPath rt filePath \<noteq> filePath"
  by (simp add: backupPath_def)

lemma digit_value_digit_char: "d < 10 \<Longrightarrow> digit_value (digit_char d) = d"
proof -
  assume "d < 10"
  then consider "d = 0" | "d = 1" | "d = 2" | "d = 3" | "d = 4" | "d = 5" | "d = 6"
    | "d = 7" | "d = 8" | "d = 9"
    by (auto simp: numeral_eq_Suc less_Suc_eq)
  then show ?thesis
    by cases (simp_all add: digit_value_def digit_char_def)
qed

lemma decimal_value_string_of_nat: "decimal_value (string_of_nat n) = n"
proof (induction n rule: string_of_nat.induct)
  case (1 n)
  show ?case
  proof (cases "n < 10")
    case True
    then show ?thesis
      by (simp add: string_of_nat.simps [of n] decimal_value_def digit_value_digit_char)
  next
    case False
    then have "decimal_value (string_of_nat (n div 10)) = n div 10"
      using 1 by simp
    then show ?thesis
      using False
      by (simp add: string_of_nat.simps [of n] decimal_value_def digit_value_digit_char)
  qed
qed

lemma string_of_nat_inject: "string_of_nat m = string_of_nat n \<Longrightarrow> m = n"
  by (metis decimal_value_string_of_nat)

lemma backup_paths_differ:
  "now' \<noteq> now \<Longrightarrow>
     filePath @ ''.backup.'' @ string_of_nat now' \<noteq> filePath @ ''.backup.'' @ string_of_nat now"
  using string_of_nat_inject by auto

text \<open>
  Claim C9. On a file that exists and parses to an array, with a consistent comparator,
  the script returns and makes exactly two writes, in this order: the content it read, to
  the file path followed by \<^verbatim>\<open>.backup.\<close> and the decimal reading of the clock, and
  then the printed list of kept records, to the file path. A run at another clock reading
  would write its backup to another path. The kept records are exactly the first record
  of each non-empty identifier of the array, every later record with that identifier
  being left out; no two of them share an identifier; and they are the records the loop
  kept, in an order in which \<^verbatim>\<open>localeCompare\<close> never puts the lower-cased identifier
  of a record after that of a later one.
\<close>

theorem dedupeAndSortMeta_contract:
  assumes "d filePath = Some fileContent"
    and "JSON_parse rt fileContent = Some (JArray data)"
    and "consistent (localeCompare rt)"
  shows "\<exists>out kept. dedupeAndSortMeta rt filePath d = Inr out \<and>
     writes out =
       [(filePath @ ''.backup.'' @ string_of_nat (Date_now rt), fileContent),
        (filePath, JSON_stringify rt kept)] \<and>
     disk_after out (filePath @ ''.backup.'' @ string_of_nat (Date_now rt)) = Some fileContent \<and>
     disk_after out filePath = Some (JSON_stringify rt kept) \<and>
     (\<forall>now'. now' \<noteq> Date_now rt \<longrightarrow>
        filePath @ ''.backup.'' @ string_of_nat now' \<noteq>
        filePath @ ''.backup.'' @ string_of_nat (Date_now rt)) \<and>
     (\<forall>t. t \<in> set kept \<longleftrightarrow> id' t \<noteq> [] \<and> first_with_id data (id' t) = Some (Object t)) \<and>
     distinct (map id' kept) \<and>
     mset kept = mset (unique (dedupe data)) \<and>
     sorted_wrt (\<lambda>a b. localeCompare rt (toLowerCase rt (id' a)) (toLowerCase rt (id' b)) \<le> 0)
       kept"
proof -
  let ?kept = "array_sort (compare_ids rt) (unique (dedupe data))"
  let ?backup = "filePath @ ''.backup.'' @ string_of_nat (Date_now rt)"
  let ?d1 = "writeFileSync ?backup fileContent d"
  let ?d2 = "writeFileSync filePath (JSON_stringify rt ?kept) ?d1"
  let ?out = "\<lparr>returned = \<lparr>original = length data,
                  duplicatesRemoved = length (duplicates (dedupe data)),
                  final = length ?kept, removed = duplicates (dedupe data)\<rparr>,
      disk_after = ?d2,
      writes = [(?backup, fileContent), (filePath, JSON_stringify rt ?kept)],
      console = warned (dedupe data)\<rparr>"
  have run: "dedupeAndSortMeta rt filePath d = Inr ?out"
    using assms(1,2) by (simp add: dedupeAndSortMeta_def backupPath_def Let_def)
  have m: "mset ?kept = mset (unique (dedupe data))" by (rule mset_array_sort)
  have inv: "dedupe_inv data (dedupe data)" by (rule dedupe_invariant)
  have s: "set ?kept = set (unique (dedupe data))" using m by (rule mset_eq_setD)
  have k: "\<forall>t. t \<in> set ?kept \<longleftrightarrow> id' t \<noteq> [] \<and> first_with_id data (id' t) = Some (Object t)"
    unfolding s using inv by (simp add: dedupe_inv_def)
  have "mset (map id' ?kept) = mset (map id' (unique (dedupe data)))"
    using m by (metis mset_map)
  then have dk: "distinct (map id' ?kept)"
    using inv by (metis dedupe_inv_def mset_eq_imp_distinct_iff)
  have "sorted_wrt (\<lambda>a b. compare_ids rt a b \<le> 0) ?kept"
    using assms(3) by (rule sorted_compare_ids)
  then have so: "sorted_wrt
      (\<lambda>a b. localeCompare rt (toLowerCase rt (id' a)) (toLowerCase rt (id' b)) \<le> 0) ?kept"
    by (simp add: compare_ids_def)
  have "?backup \<noteq> filePath" by simp
  then have w1: "disk_after ?out ?backup = Some fileContent"
    by (simp add: writeFileSync_def)
  have w2: "disk_after ?out filePath = Some (JSON_stringify rt ?kept)"
    by (simp add: writeFileSync_def)
  have wr: "writes ?out = [(?backup, fileContent), (filePath, JSON_stringify rt ?kept)]"
    by simp
  have ts: "\<forall>now'. now' \<noteq> Date_now rt \<longrightarrow>
      filePath @ ''.backup.'' @ string_of_nat now' \<noteq> ?backup"
    using backup_paths_differ by blast
  show ?thesis
    using run wr w1 w2 ts k dk m so by blast
qed

lemma example_consistent: "consistent (localeCompare example_runtime)"
  by (auto simp: consistent_def example_runtime_def)

lemma example_dedupe:
  "unique (dedupe example_data) = [tpl ''b'' ''first'' [], tpl ''a'' ''second'' []]"
  by (simp add: example_data_def dedupe_def dedupe_from_def upt_conv_Cons tpl_def)

lemma example_sort:
  "array_sort (compare_ids example_runtime) [tpl ''b'' ''first'' [], tpl ''a'' ''second'' []] =
     [tpl ''a'' ''second'' [], tpl ''b'' ''first'' []]"
  by (simp add: array_sort_def compare_ids_def example_runtime_def tpl_def)

lemma example_backupPath: "backupPath example_runtime ''meta.json'' = ''meta.json.backup.17''"
  by (simp add: backupPath_def example_runtime_def string_of_nat.simps digit_char_def)

theorem dedupeAndSortMeta_witness:
  "\<exists>out. dedupeAndSortMeta example_runtime ''meta.json'' example_disk = Inr out \<and>
     writes out = [(''meta.json.backup.17'', ''raw''), (''meta.json'', ''a/b/'')]"
proof -
  have h1: "example_disk ''meta.json'' = Some ''raw''" by (simp add: example_disk_def)
  have h2: "JSON_parse example_runtime ''raw'' = Some (JArray example_data)"
    by (simp add: example_runtime_def)
  have s: "JSON_stringify example_runtime [tpl ''a'' ''second'' [], tpl ''b'' ''first'' []] = ''a/b/''"
    by (simp add: example_runtime_def tpl_def)
  have e: "dedupeAndSortMeta example_runtime ''meta.json'' example_disk = Inr out \<Longrightarrow>
     writes out = [(''meta.json.backup.17'', ''raw''), (''meta.json'', ''a/b/'')]" for out
    by (auto simp add: dedupeAndSortMeta_def h1 h2 Let_def example_dedupe example_sort
        example_backupPath s)
  from dedupeAndSortMeta_contract [of example_disk "''meta.json''" "''raw''" example_runtime
      example_data, OF h1 h2 example_consistent] e
  show ?thesis by blast
qed

end
